theory Spec2Isabelle
  imports Main
begin

section \<open>Strings and POSIX paths\<close>

text \<open>
  The module works on Python strings through \<open>os.path\<close> (taken as \<open>posixpath\<close>).
  A path is a \<open>string\<close>; the three path functions below follow the standard
  library:
  \<^item> \<open>basename p = p[p.rfind('/') + 1:]\<close>;
  \<^item> \<open>dirname p\<close> is the head \<open>p[:p.rfind('/') + 1]\<close>, with its trailing slashes
    stripped unless it consists of slashes only;
  \<^item> \<open>join a b\<close> is \<open>b\<close> when \<open>b\<close> is absolute, \<open>a + b\<close> when \<open>a\<close> is empty or ends with
    a slash, and \<open>a + '/' + b\<close> otherwise.
\<close>

definition startswith :: "string \<Rightarrow> string \<Rightarrow> bool" where
  "startswith s p = (take (length p) s = p)"

definition basename :: "string \<Rightarrow> string" where
  "basename p = rev (takeWhile (\<lambda>c. c \<noteq> CHR ''/'') (rev p))"

definition rstrip_slash :: "string \<Rightarrow> string" where
  "rstrip_slash p = rev (dropWhile (\<lambda>c. c = CHR ''/'') (rev p))"

definition dirname :: "string \<Rightarrow> string" where
  "dirname p =
     (let head = rev (dropWhile (\<lambda>c. c \<noteq> CHR ''/'') (rev p))
      in if head \<noteq> [] \<and> head \<noteq> replicate (length head) (CHR ''/'')
         then rstrip_slash head else head)"

definition join :: "string \<Rightarrow> string \<Rightarrow> string" where
  "join a b =
     (if startswith b ''/'' then b
      else if a = [] \<or> last a = CHR ''/'' then a @ b
      else a @ ''/'' @ b)"

section \<open>Data model\<close>

text \<open>
  A manifest is the object returned by \<open>parse_manifest_file\<close>; \<open>depends\<close> and \<open>rosdeps\<close>
  hold the \<open>name\<close> attributes of the entries, in manifest order. A missing version
  (\<open>None\<close>) is \<open>None\<close>.
\<close>

record manifest =
  version :: "string option"
  depends :: "string list"
  rosdeps :: "string list"

text \<open>
  A directory as \<open>os.walk\<close> sees it: the names of its non-directory entries and its
  subdirectories in listing order. Entry names are never empty. The tree is finite, so
  a symbolic-link loop (followed because of \<open>followlinks=True\<close>) is outside the model.
\<close>

datatype dirtree = Dir (files: "string list") (subdirs: "(string \<times> dirtree) list")

text \<open>Python values that can be elements of the \<open>names\<close> argument of \<open>expand_to_packages\<close>.\<close>

datatype pyatom = AStr string | AInt int | ANone

datatype pyval = PyStr string | PyInt int | PyNone | PyList "pyatom list" | PyTuple "pyatom list"

datatype error =
    ResourceNotFound pyatom string string
  | InvalidManifest
  | ValueError

text \<open>
  Everything outside the module: the constants of \<open>common\<close>, the functions of
  \<open>environment\<close> and \<open>manifest\<close>, and the file system.
  \<^item> \<open>cache_file n\<close>: the result of \<open>readlines()\<close> on the file \<open>n\<close> in the ROS home
    directory (every line with its terminator), \<open>None\<close> when the file does not exist;
  \<^item> \<open>tree_at p\<close>: the directory tree at the absolute path \<open>p\<close>, \<open>None\<close> when \<open>p\<close> is
    not a directory (then \<open>os.walk\<close> yields nothing);
  \<^item> \<open>path_exists\<close>, \<open>isfile\<close>, \<open>read_text\<close>: \<open>os.path.exists\<close>, \<open>os.path.isfile\<close> and the
    content of a file.
\<close>

record env =
  MANIFEST_FILE :: string
  STACK_FILE :: string
  compute_package_paths :: "string \<Rightarrow> string \<Rightarrow> string list"
  parse_manifest_file :: "string \<Rightarrow> string \<Rightarrow> error + manifest"
  cache_file :: "string \<Rightarrow> string list option"
  abspath :: "string \<Rightarrow> string"
  tree_at :: "string \<Rightarrow> dirtree option"
  path_exists :: "string \<Rightarrow> bool"
  isfile :: "string \<Rightarrow> bool"
  read_text :: "string \<Rightarrow> string"

text \<open>The fields of a \<open>ManifestManager\<close> instance.\<close>

record manager =
  manifest_name :: string
  cache_name :: string
  ros_root :: string
  ros_package_path :: string
  package_paths :: "string list"
  manifests :: "string \<rightharpoonup> manifest"
  depends_cache :: "string \<rightharpoonup> string list"
  rosdeps_cache :: "string \<rightharpoonup> string list"
  location_cache :: "(string \<rightharpoonup> string) option"

definition new_manager :: "env \<Rightarrow> string \<Rightarrow> string \<Rightarrow> string \<Rightarrow> string \<Rightarrow> manager" where
  "new_manager e mname cname root rpp =
     \<lparr> manifest_name = mname, cache_name = cname, ros_root = root,
       ros_package_path = rpp, package_paths = compute_package_paths e root rpp,
       manifests = Map.empty, depends_cache = Map.empty, rosdeps_cache = Map.empty,
       location_cache = None \<rparr>"

definition new_RosPack :: "env \<Rightarrow> string \<Rightarrow> string \<Rightarrow> manager" where
  "new_RosPack e root rpp = new_manager e (MANIFEST_FILE e) ''rospack_cache'' root rpp"

definition new_RosStack :: "env \<Rightarrow> string \<Rightarrow> string \<Rightarrow> manager" where
  "new_RosStack e root rpp = new_manager e (STACK_FILE e) ''rosstack_cache'' root rpp"

section \<open>Reading the cache snapshot\<close>

text \<open>
  The loop of \<open>_read_rospack_cache\<close> over the lines of the file. The two flags are
  \<open>ros_root_validated\<close> and \<open>ros_package_path_validated\<close>; the mapping is the caller's
  dictionary, written in place, so it is returned together with the verdict.
\<close>

fun read_lines ::
  "string list \<Rightarrow> string \<Rightarrow> string \<Rightarrow> bool \<Rightarrow> bool \<Rightarrow> (string \<rightharpoonup> string)
     \<Rightarrow> bool \<times> (string \<rightharpoonup> string)" where
  "read_lines [] root rpp rv pv cache = (rv \<and> pv, cache)"
| "read_lines (l0 # ls) root rpp rv pv cache =
     (let l = butlast l0 in
      if length l = 0 then read_lines ls root rpp rv pv cache
      else if hd l = CHR ''#'' then
        (if startswith l ''#ROS_ROOT='' then
           (if drop (length ''#ROS_ROOT='') l \<noteq> root then (False, cache)
            else read_lines ls root rpp True pv cache)
         else if startswith l ''#ROS_PACKAGE_PATH='' then
           (if drop (length ''#ROS_PACKAGE_PATH='') l \<noteq> rpp then (False, cache)
            else read_lines ls root rpp rv True cache)
         else read_lines ls root rpp rv pv cache)
      else read_lines ls root rpp rv pv (cache(basename l \<mapsto> l)))"

definition read_rospack_cache ::
  "env \<Rightarrow> string \<Rightarrow> (string \<rightharpoonup> string) \<Rightarrow> string \<Rightarrow> string \<Rightarrow> bool \<times> (string \<rightharpoonup> string)" where
  "read_rospack_cache e cname cache root rpp =
     (case cache_file e cname of
        None \<Rightarrow> (False, cache)
      | Some ls \<Rightarrow> read_lines ls root rpp False False cache)"

section \<open>Crawling a root\<close>

text \<open>
  The list comprehension \<open>[dirs.remove(di) for di in dirs if di[0] == '.']\<close> removes
  from the list it iterates over: the iteration is by index, so the entry that follows
  a removed one is skipped.
\<close>

function remove_hidden :: "nat \<Rightarrow> string list \<Rightarrow> string list" where
  "remove_hidden i dirs =
     (if i < length dirs then
        (if hd (dirs ! i) = CHR ''.'' then remove_hidden (Suc i) (remove1 (dirs ! i) dirs)
         else remove_hidden (Suc i) dirs)
      else dirs)"
  by pat_completeness auto
termination
  by (relation "measure (\<lambda>(i, dirs). length dirs - i)") (auto simp: length_remove1)

declare remove_hidden.simps [simp del]

text \<open>
  The body of the \<open>for\<close> loop of \<open>list_by_path\<close> on one directory \<open>d\<close>, followed by the
  descent of \<open>os.walk\<close> into the entries left in \<open>dirs\<close>. The state is the local list
  \<open>resources\<close> and the caller's cache (\<open>None\<close> for Python's \<open>None\<close>).
\<close>

type_synonym crawl_state = "string list \<times> (string \<rightharpoonup> string) option"

lemma size_subdir:
  "map_of subs name = Some sub \<Longrightarrow> size sub < Suc (size_list (size_prod (\<lambda>x. 0) size) subs)"
proof (induction subs)
  case Nil
  then show ?case by simp
next
  case (Cons a subs)
  then show ?case by (cases a) (auto split: if_splits)
qed

function walk :: "string \<Rightarrow> string \<Rightarrow> string \<Rightarrow> dirtree \<Rightarrow> crawl_state \<Rightarrow> crawl_state" where
  "walk mname mfile d (Dir fs subs) (resources, cache) =
     (if mname \<in> set fs then
        (let resource_name = basename d in
         if resource_name \<notin> set resources then
           (resources @ [resource_name],
            (case cache of None \<Rightarrow> None | Some c \<Rightarrow> Some (c(resource_name \<mapsto> d))))
         else (resources, cache))
      else if mfile \<in> set fs then (resources, cache)
      else if ''rospack_nosubdirs'' \<in> set fs then (resources, cache)
      else fold (\<lambda>name st. case map_of subs name of
                               None \<Rightarrow> st
                             | Some sub \<Rightarrow> walk mname mfile (join d name) sub st)
             (remove_hidden 0 (map fst subs)) (resources, cache))"
  by pat_completeness auto
termination
  by (relation "measure (\<lambda>(mname, mfile, d, t, st). size t)")
    (auto simp: size_subdir)

definition list_by_path ::
  "env \<Rightarrow> string \<Rightarrow> string \<Rightarrow> (string \<rightharpoonup> string) option \<Rightarrow> crawl_state" where
  "list_by_path e mname path cache =
     (let p = abspath e path in
      case tree_at e p of
        None \<Rightarrow> ([], cache)
      | Some t \<Rightarrow> walk mname (MANIFEST_FILE e) p t ([], cache))"

section \<open>The resource index\<close>

definition crawl_paths :: "env \<Rightarrow> string \<Rightarrow> string list \<Rightarrow> (string \<rightharpoonup> string) \<Rightarrow> (string \<rightharpoonup> string)" where
  "crawl_paths e mname paths cache =
     fold (\<lambda>path c. case snd (list_by_path e mname path (Some c)) of
                       None \<Rightarrow> c | Some c' \<Rightarrow> c') paths cache"

definition update_location_cache :: "env \<Rightarrow> manager \<Rightarrow> manager" where
  "update_location_cache e m =
     (case location_cache m of
        Some c \<Rightarrow> m
      | None \<Rightarrow>
          if package_paths m = [] then m\<lparr>location_cache := Some Map.empty\<rparr>
          else
            (case read_rospack_cache e (cache_name m) Map.empty (ros_root m) (ros_package_path m) of
               (True, c) \<Rightarrow> m\<lparr>location_cache := Some c\<rparr>
             | (False, c) \<Rightarrow>
                 m\<lparr>location_cache :=
                     Some (crawl_paths e (manifest_name m)
                             (compute_package_paths e (ros_root m) (ros_package_path m)) c)\<rparr>))"

definition the_index :: "manager \<Rightarrow> (string \<rightharpoonup> string)" where
  "the_index m = (case location_cache m of None \<Rightarrow> Map.empty | Some c \<Rightarrow> c)"


definition get_path :: "env \<Rightarrow> string \<Rightarrow> manager \<Rightarrow> (error + string) \<times> manager" where
  "get_path e name m =
     (let m' = update_location_cache e m in
      case the_index m' name of
        None \<Rightarrow> (Inl (ResourceNotFound (AStr name) (ros_root m') (ros_package_path m')), m')
      | Some p \<Rightarrow> (Inr p, m'))"

section \<open>Facts about the crawl\<close>


lemma walk_fold_indep:
  fixes f :: "'a \<Rightarrow> crawl_state \<Rightarrow> crawl_state"
  assumes "\<And>x rs. x \<in> set xs \<Longrightarrow> \<exists>new \<delta>. dom \<delta> = set new \<and> (\<forall>c. f x (rs, Some c) = (rs @ new, Some (c ++ \<delta>)))"
  shows "\<exists>new \<delta>. dom \<delta> = set new \<and> (\<forall>c. fold f xs (rs, Some c) = (rs @ new, Some (c ++ \<delta>)))"
  using assms
proof (induction xs arbitrary: rs)
  case Nil
  show ?case by (intro exI[of _ "[]"] exI[of _ Map.empty]) simp
next
  case (Cons x xs)
  obtain n1 d1 where h1: "dom d1 = set n1" "\<forall>c. f x (rs, Some c) = (rs @ n1, Some (c ++ d1))"
    using Cons.prems[of x rs] by auto
  obtain n2 d2 where h2: "dom d2 = set n2" "\<forall>c. fold f xs (rs @ n1, Some c) = ((rs @ n1) @ n2, Some (c ++ d2))"
    using Cons.IH[of "rs @ n1"] Cons.prems by auto
  have "dom (d1 ++ d2) = set (n1 @ n2)" using h1 h2 by auto
  moreover have "\<forall>c. fold f (x # xs) (rs, Some c) = (rs @ (n1 @ n2), Some (c ++ (d1 ++ d2)))"
    using h1 h2 by simp
  ultimately show ?case by blast
qed

lemma walk_indep:
  "\<exists>new \<delta>. dom \<delta> = set new \<and> (\<forall>c. walk mn mf d t (rs, Some c) = (rs @ new, Some (c ++ \<delta>)))"
proof (induction t arbitrary: d rs)
  case (Dir fs subs)
  let ?f = "\<lambda>name st. case map_of subs name of None \<Rightarrow> st | Some sub \<Rightarrow> walk mn mf (join d name) sub st"
  have step: "\<exists>new \<delta>. dom \<delta> = set new \<and> (\<forall>c. ?f x (rs', Some c) = (rs' @ new, Some (c ++ \<delta>)))" for x rs'
  proof (cases "map_of subs x")
    case None
    show ?thesis unfolding None by (intro exI[of _ "[]"] exI[of _ Map.empty]) simp
  next
    case (Some sub)
    then have "(x, sub) \<in> set subs" by (rule map_of_SomeD)
    then have "sub \<in> Basic_BNFs.snds (x, sub)" "(x, sub) \<in> set subs" by auto
    from Dir.IH[OF this(2) this(1)] show ?thesis unfolding Some by simp
  qed
  have fold_case: "\<exists>new \<delta>. dom \<delta> = set new \<and>
      (\<forall>c. fold ?f xs (rs, Some c) = (rs @ new, Some (c ++ \<delta>)))" for xs
    by (rule walk_fold_indep) (rule step)
  show ?case
  proof (cases "mn \<in> set fs")
    case True
    show ?thesis
    proof (cases "basename d \<in> set rs")
      case in_rs: True
      show ?thesis using True in_rs by (intro exI[of _ "[]"] exI[of _ Map.empty]) simp
    next
      case False
      show ?thesis using True False
        by (intro exI[of _ "[basename d]"] exI[of _ "[basename d \<mapsto> d]"]) (auto simp: Let_def map_add_def fun_eq_iff dom_def)
    qed
  next
    case False
    show ?thesis
    proof (cases "mf \<in> set fs \<or> ''rospack_nosubdirs'' \<in> set fs")
      case True
      show ?thesis using \<open>mn \<notin> set fs\<close> True by (intro exI[of _ "[]"] exI[of _ Map.empty]) (auto)
    next
      case leaf: False
      have "walk mn mf d (Dir fs subs) (rs, Some c) = fold ?f (remove_hidden 0 (map fst subs)) (rs, Some c)" for c
        using False leaf by (subst walk.simps) simp
      then show ?thesis using fold_case[of "remove_hidden 0 (map fst subs)"] by presburger
    qed
  qed
qed

section \<open>Facts about the cache reader and the index\<close>

text \<open>
  The branch of \<open>_read_rospack_cache\<close> that a line takes, named: the line is first cut
  by \<open>l[:-1]\<close>.
\<close>


datatype line_kind = Blank | RootHeader string | PathHeader string | Comment | Data string

definition classify :: "string \<Rightarrow> line_kind" where
  "classify l0 =
     (let l = butlast l0 in
      if length l = 0 then Blank
      else if hd l = CHR ''#'' then
        (if startswith l ''#ROS_ROOT='' then RootHeader (drop (length ''#ROS_ROOT='') l)
         else if startswith l ''#ROS_PACKAGE_PATH='' then
           PathHeader (drop (length ''#ROS_PACKAGE_PATH='') l)
         else Comment)
      else Data l)"

definition rejecting :: "string \<Rightarrow> string \<Rightarrow> string \<Rightarrow> bool" where
  "rejecting root rpp l0 =
     (case classify l0 of
        RootHeader v \<Rightarrow> v \<noteq> root
      | PathHeader v \<Rightarrow> v \<noteq> rpp
      | _ \<Rightarrow> False)"

definition has_root_header :: "string list \<Rightarrow> bool" where
  "has_root_header ls = (\<exists>l\<in>set ls. case classify l of RootHeader v \<Rightarrow> True | _ \<Rightarrow> False)"

definition has_path_header :: "string list \<Rightarrow> bool" where
  "has_path_header ls = (\<exists>l\<in>set ls. case classify l of PathHeader v \<Rightarrow> True | _ \<Rightarrow> False)"

definition store_data :: "string list \<Rightarrow> (string \<rightharpoonup> string) \<Rightarrow> (string \<rightharpoonup> string)" where
  "store_data ls c =
     fold (\<lambda>l0 c. case classify l0 of Data l \<Rightarrow> c(basename l \<mapsto> l) | _ \<Rightarrow> c) ls c"

lemma read_lines_Cons:
  "read_lines (l0 # ls) root rpp rv pv c =
     (case classify l0 of
        Blank \<Rightarrow> read_lines ls root rpp rv pv c
      | RootHeader v \<Rightarrow> if v \<noteq> root then (False, c) else read_lines ls root rpp True pv c
      | PathHeader v \<Rightarrow> if v \<noteq> rpp then (False, c) else read_lines ls root rpp rv True c
      | Comment \<Rightarrow> read_lines ls root rpp rv pv c
      | Data l \<Rightarrow> read_lines ls root rpp rv pv (c(basename l \<mapsto> l)))"
  by (simp add: classify_def Let_def)

lemma read_lines_prefix:
  "\<forall>l\<in>set pre. \<not> rejecting root rpp l \<Longrightarrow>
   read_lines (pre @ rest) root rpp rv pv c =
   read_lines rest root rpp (rv \<or> has_root_header pre) (pv \<or> has_path_header pre) (store_data pre c)"
proof (induction pre arbitrary: rv pv c)
  case Nil
  show ?case by (simp add: has_root_header_def has_path_header_def store_data_def)
next
  case (Cons l0 pre)
  have ok: "\<forall>l\<in>set pre. \<not> rejecting root rpp l" and l0: "\<not> rejecting root rpp l0"
    using Cons.prems by auto
  have sd: "store_data (l0 # pre) c = store_data pre (case classify l0 of Data l \<Rightarrow> c(basename l \<mapsto> l) | _ \<Rightarrow> c)"
    by (simp add: store_data_def)
  show ?case
    using l0 Cons.IH[OF ok]
    by (cases "classify l0")
      (simp_all add: read_lines_Cons rejecting_def sd has_root_header_def has_path_header_def
        fun_upd_def del: read_lines.simps)
qed

lemma read_lines_reject:
  "rejecting root rpp h \<Longrightarrow> read_lines (h # post) root rpp rv pv c = (False, c)"
  by (cases "classify h") (simp_all add: read_lines_Cons rejecting_def del: read_lines.simps)

lemma store_data_snoc:
  "store_data (ls @ [l0]) c =
     (case classify l0 of Data l \<Rightarrow> (store_data ls c)(basename l \<mapsto> l) | _ \<Rightarrow> store_data ls c)"
  by (simp add: store_data_def split: line_kind.splits)

lemma store_data_add: "store_data ls c = c ++ store_data ls Map.empty"
proof (induction ls rule: rev_induct)
  case Nil
  show ?case by (simp add: store_data_def)
next
  case (snoc l0 ls)
  show ?case
    using snoc by (cases "classify l0") (auto simp: store_data_snoc map_add_def fun_eq_iff)
qed

lemma store_data_entry:
  "l0 \<in> set ls \<Longrightarrow> classify l0 = Data p \<Longrightarrow>
   \<exists>l1\<in>set ls. \<exists>q. classify l1 = Data q \<and> basename q = basename p \<and>
      store_data ls Map.empty (basename p) = Some q"
proof (induction ls rule: rev_induct)
  case Nil
  then show ?case by simp
next
  case (snoc x ls)
  show ?case
  proof (cases "\<exists>q. classify x = Data q \<and> basename q = basename p")
    case True
    then obtain q where q: "classify x = Data q" "basename q = basename p" by blast
    then have "store_data (ls @ [x]) Map.empty (basename p) = Some q"
      by (simp add: store_data_snoc)
    with q show ?thesis by auto
  next
    case False
    with snoc.prems have "l0 \<in> set ls" by auto
    from snoc.IH[OF this snoc.prems(2)] obtain l1 q where
      h: "l1 \<in> set ls" "classify l1 = Data q" "basename q = basename p"
         "store_data ls Map.empty (basename p) = Some q" by blast
    have "store_data (ls @ [x]) Map.empty (basename p) = Some q"
      using False h(4) by (cases "classify x") (auto simp: store_data_snoc)
    with h show ?thesis by auto
  qed
qed

lemma list_by_path_indep:
  "\<exists>new \<delta>. dom \<delta> = set new \<and>
     (\<forall>c. list_by_path e mn p (Some c) = (new, Some (c ++ \<delta>)))"
proof (cases "tree_at e (abspath e p)")
  case None
  show ?thesis
    by (intro exI[of _ "[]"] exI[of _ Map.empty]) (simp add: list_by_path_def None)
next
  case (Some t)
  from walk_indep[of "mn" "MANIFEST_FILE e" "abspath e p" t "[]"] show ?thesis
    by (simp add: list_by_path_def Some)
qed

lemma crawl_paths_Nil: "crawl_paths e mn [] c = c"
  by (simp add: crawl_paths_def)

lemma crawl_paths_snoc:
  "crawl_paths e mn (ps @ [p]) c =
     (case snd (list_by_path e mn p (Some (crawl_paths e mn ps c))) of
        None \<Rightarrow> crawl_paths e mn ps c | Some c' \<Rightarrow> c')"
  unfolding crawl_paths_def by simp

lemma crawl_paths_last_wins:
  assumes "snd (list_by_path e mn p (Some Map.empty)) = Some \<delta>" and "\<delta> n = Some d"
  shows "crawl_paths e mn (ps @ [p]) c n = Some d"
proof -
  obtain new \<delta>' where h: "\<forall>c. list_by_path e mn p (Some c) = (new, Some (c ++ \<delta>'))"
    using list_by_path_indep by blast
  from h assms(1) have "\<delta>' = \<delta>" by simp
  with h assms(2) show ?thesis by (simp add: crawl_paths_snoc)
qed

lemma crawl_paths_not_found:
  "\<forall>p\<in>set ps. n \<notin> set (fst (list_by_path e mn p (Some Map.empty))) \<Longrightarrow>
   crawl_paths e mn ps c n = c n"
proof (induction ps rule: rev_induct)
  case Nil
  show ?case by (simp add: crawl_paths_Nil)
next
  case (snoc p ps)
  obtain new \<delta> where h: "dom \<delta> = set new"
      "\<forall>c. list_by_path e mn p (Some c) = (new, Some (c ++ \<delta>))"
    using list_by_path_indep by blast
  from snoc.prems h(2) have "n \<notin> set new" by simp
  with h(1) have "\<delta> n = None" by blast
  moreover have "crawl_paths e mn ps c n = c n" using snoc by simp
  ultimately show ?case using h(2) by (simp add: crawl_paths_snoc map_add_def)
qed

lemma get_path_crawled:
  assumes "location_cache m = None" and "package_paths m \<noteq> []"
    and "read_rospack_cache e (cache_name m) Map.empty (ros_root m) (ros_package_path m) = (False, c)"
  shows "fst (get_path e n m) =
     (case crawl_paths e (manifest_name m)
             (compute_package_paths e (ros_root m) (ros_package_path m)) c n of
        None \<Rightarrow> Inl (ResourceNotFound (AStr n) (ros_root m) (ros_package_path m))
      | Some p \<Rightarrow> Inr p)"
  using assms
  by (simp add: get_path_def update_location_cache_def the_index_def Let_def split: option.splits)


section \<open>Concrete scenarios\<close>

text \<open>
  A small environment: a POSIX system with the usual marker names, one search directory
  (the root itself), no snapshot file and an empty file system. The scenarios below
  override single fields.
\<close>

definition env_base :: env where
  "env_base =
     \<lparr> MANIFEST_FILE = ''manifest.xml'', STACK_FILE = ''stack.xml'',
       compute_package_paths = (\<lambda>root rpp. [root]),
       parse_manifest_file = (\<lambda>d n. Inl InvalidManifest),
       cache_file = (\<lambda>n. None), abspath = (\<lambda>p. p), tree_at = (\<lambda>p. None),
       path_exists = (\<lambda>p. False), isfile = (\<lambda>p. False), read_text = (\<lambda>p. []) \<rparr>"

definition pkg_dir :: dirtree where
  "pkg_dir = Dir [''manifest.xml''] []"

definition env_two_roots :: env where
  "env_two_roots =
     env_base\<lparr> compute_package_paths := (\<lambda>root rpp. [''/a'', ''/b'']),
               tree_at := (\<lambda>p. if p = ''/a'' \<or> p = ''/b''
                                then Some (Dir [] [(''pkgX'', pkg_dir)]) else None) \<rparr>"

definition env_stale :: env where
  "env_stale =
     env_base\<lparr> cache_file := (\<lambda>n. if n = ''rospack_cache''
                     then Some [''/stale/foo\<newline>'', ''#ROS_ROOT=/other\<newline>'',
                                ''#ROS_PACKAGE_PATH=\<newline>'']
                     else None),
               tree_at := (\<lambda>p. if p = ''/opt/ros'' then Some (Dir [] []) else None) \<rparr>"

lemmas eval_defs = get_path_def update_location_cache_def read_rospack_cache_def crawl_paths_def
  list_by_path_def remove_hidden.simps basename_def join_def startswith_def new_RosPack_def
  new_manager_def the_index_def env_base_def pkg_dir_def Let_def

section \<open>Precedence between roots (C1)\<close>

text \<open>
  C1, as stated: with roots \<open>/a\<close> (crawled first) and \<open>/b\<close> (crawled second), each holding
  a package directory \<open>pkgX\<close>, \<open>get_path\<close> would give \<open>/a/pkgX\<close>. The list \<open>resources\<close> that
  guards the write to the cache is local to one call of \<open>list_by_path\<close>, so the second
  crawl writes over the entry of the first: the answer is \<open>/b/pkgX\<close>.
\<close>

theorem precedence_counterexample:
  "fst (get_path env_two_roots ''pkgX'' (new_RosPack env_two_roots ''/a'' ''/b'')) = Inr ''/b/pkgX''
   \<and> fst (get_path env_two_roots ''pkgX'' (new_RosPack env_two_roots ''/a'' ''/b'')) \<noteq> Inr ''/a/pkgX''"
  by (simp add: eval_defs env_two_roots_def)

section \<open>A rejected snapshot (C4)\<close>

text \<open>
  C4: a snapshot whose \<open>#ROS_ROOT=\<close> line does not match contributes no entry to the index.
  Here the snapshot lists \<open>/stale/foo\<close> before its mismatching header; the reader returns
  \<open>False\<close>, the crawl of the (empty) root finds nothing, and \<open>foo\<close> still resolves to
  the path read from the rejected snapshot.
\<close>

theorem stale_snapshot_entry_survives:
  "fst (read_rospack_cache env_stale ''rospack_cache'' Map.empty ''/opt/ros'' []) = False
   \<and> fst (get_path env_stale ''foo'' (new_RosPack env_stale ''/opt/ros'' [])) = Inr ''/stale/foo''"
  by (simp add: eval_defs env_stale_def)

definition env_headerless :: env where
  "env_headerless =
     env_base\<lparr> cache_file := (\<lambda>n. if n = ''rospack_cache''
                     then Some [''/stale/bar\<newline>''] else None),
               tree_at := (\<lambda>p. if p = ''/opt/ros'' then Some (Dir [] []) else None) \<rparr>"

text \<open>
  C1, amended: when the crawl takes place (no snapshot was accepted) and the root crawled
  last records \<open>pkgX\<close> at \<open>dB\<close>, then \<open>get_path pkgX\<close> is \<open>dB\<close>, whatever the roots crawled
  before it hold.
\<close>

theorem later_root_overrides:
  assumes "location_cache m = None" and "package_paths m \<noteq> []"
    and "\<not> fst (read_rospack_cache e (cache_name m) Map.empty (ros_root m) (ros_package_path m))"
    and "compute_package_paths e (ros_root m) (ros_package_path m) = ps @ [B]"
    and "snd (list_by_path e (manifest_name m) B (Some Map.empty)) = Some \<delta>"
    and "\<delta> pkgX = Some dB"
  shows "fst (get_path e pkgX m) = Inr dB"
proof -
  obtain c where c: "read_rospack_cache e (cache_name m) Map.empty (ros_root m) (ros_package_path m)
      = (False, c)"
    using assms(3) by (cases "read_rospack_cache e (cache_name m) Map.empty (ros_root m) (ros_package_path m)") auto
  have "crawl_paths e (manifest_name m) (ps @ [B]) c pkgX = Some dB"
    using assms(5,6) by (rule crawl_paths_last_wins)
  then show ?thesis
    using get_path_crawled[OF assms(1,2) c, of pkgX] assms(4) by simp
qed

text \<open>The amended C1 at roots \<open>/a\<close> and \<open>/b\<close>, both holding \<open>pkgX\<close>.\<close>

theorem later_root_overrides_witness:
  "fst (get_path env_two_roots ''pkgX'' (new_RosPack env_two_roots ''/a'' ''/c'')) = Inr ''/b/pkgX''"
proof -
  let ?m = "new_RosPack env_two_roots ''/a'' ''/c''"
  have h1: "location_cache ?m = None" by (simp add: eval_defs)
  have h2: "package_paths ?m \<noteq> []" by (simp add: eval_defs env_two_roots_def)
  have h3: "\<not> fst (read_rospack_cache env_two_roots (cache_name ?m) Map.empty (ros_root ?m)
      (ros_package_path ?m))"
    by (simp add: eval_defs env_two_roots_def)
  have h4: "compute_package_paths env_two_roots (ros_root ?m) (ros_package_path ?m) = [''/a''] @ [''/b'']"
    by (simp add: env_two_roots_def)
  have h5: "snd (list_by_path env_two_roots (manifest_name ?m) ''/b'' (Some Map.empty))
      = Some [''pkgX'' \<mapsto> ''/b/pkgX'']"
    by (simp add: eval_defs env_two_roots_def)
  have h6: "[''pkgX'' \<mapsto> ''/b/pkgX''] ''pkgX'' = Some ''/b/pkgX''" by simp
  show ?thesis by (rule later_root_overrides[OF h1 h2 h3 h4 h5 h6])
qed

section \<open>Validation is not atomic (C6)\<close>

text \<open>
  C6: let the lines \<open>pre\<close> of a snapshot be read without rejection, and let the rejection
  come after them: a mismatching header line, or the end of the file with a header
  missing. Then for every data line of \<open>pre\<close> the reader returns \<open>False\<close> and the caller's
  mapping nevertheless holds an entry under that line's name (its value is a data line
  of \<open>pre\<close> with that name). \<open>_update_location_cache\<close> hands its live cache to the reader,
  so when no crawled root records the name, \<open>get_path\<close> answers with the path from the
  rejected snapshot.
\<close>

theorem rejected_snapshot_entries_survive:
  assumes cfile: "cache_file e (cache_name m) = Some (pre @ rest)"
    and pre: "\<forall>l\<in>set pre. \<not> rejecting (ros_root m) (ros_package_path m) l"
    and rej: "(\<exists>h post. rest = h # post \<and> rejecting (ros_root m) (ros_package_path m) h)
              \<or> (rest = [] \<and> \<not> (has_root_header pre \<and> has_path_header pre))"
    and l0: "l0 \<in> set pre" "classify l0 = Data p"
    and fresh: "location_cache m = None" "package_paths m \<noteq> []"
  shows "\<exists>q. (\<exists>l1\<in>set pre. classify l1 = Data q) \<and> basename q = basename p
     \<and> (\<forall>c. fst (read_rospack_cache e (cache_name m) c (ros_root m) (ros_package_path m)) = False
          \<and> snd (read_rospack_cache e (cache_name m) c (ros_root m) (ros_package_path m))
               (basename p) = Some q)
     \<and> ((\<forall>r\<in>set (compute_package_paths e (ros_root m) (ros_package_path m)).
            basename p \<notin> set (fst (list_by_path e (manifest_name m) r (Some Map.empty))))
          \<longrightarrow> fst (get_path e (basename p) m) = Inr q)"
proof -
  let ?root = "ros_root m" and ?rpp = "ros_package_path m"
  from store_data_entry[OF l0] obtain l1 q where
    q: "l1 \<in> set pre" "classify l1 = Data q" "basename q = basename p"
       "store_data pre Map.empty (basename p) = Some q" by blast
  have rd: "read_rospack_cache e (cache_name m) c ?root ?rpp = (False, store_data pre c)" for c
  proof -
    have "read_lines (pre @ rest) ?root ?rpp False False c
        = read_lines rest ?root ?rpp (False \<or> has_root_header pre) (False \<or> has_path_header pre)
            (store_data pre c)"
      using pre by (rule read_lines_prefix)
    also have "\<dots> = (False, store_data pre c)"
      using rej by (auto simp: read_lines_reject simp del: read_lines.simps(2))
    finally show ?thesis by (simp add: read_rospack_cache_def cfile)
  qed
  have ent: "store_data pre c (basename p) = Some q" for c
    using q(4) by (subst store_data_add) (simp add: map_add_def)
  have final: "fst (get_path e (basename p) m) = Inr q"
    if nf: "\<forall>r\<in>set (compute_package_paths e ?root ?rpp).
          basename p \<notin> set (fst (list_by_path e (manifest_name m) r (Some Map.empty)))"
  proof -
    have "crawl_paths e (manifest_name m) (compute_package_paths e ?root ?rpp)
            (store_data pre Map.empty) (basename p) = Some q"
      using crawl_paths_not_found[OF nf] q(4) by simp
    then show ?thesis using get_path_crawled[OF fresh rd[of Map.empty], of "basename p"] by simp
  qed
  show ?thesis using q(1,2,3) rd ent final by (intro exI[of _ q]) auto
qed

text \<open>C6 at a snapshot without header lines.\<close>

theorem rejected_snapshot_entries_survive_witness:
  "fst (read_rospack_cache env_headerless ''rospack_cache'' Map.empty ''/opt/ros'' []) = False
   \<and> snd (read_rospack_cache env_headerless ''rospack_cache'' Map.empty ''/opt/ros'' []) ''bar''
       = Some ''/stale/bar''
   \<and> fst (get_path env_headerless ''bar'' (new_RosPack env_headerless ''/opt/ros'' []))
       = Inr ''/stale/bar''"
proof -
  let ?m = "new_RosPack env_headerless ''/opt/ros'' []"
  have cl: "classify ''/stale/bar\<newline>'' = Data ''/stale/bar''"
    by (simp add: classify_def)
  have h1: "cache_file env_headerless (cache_name ?m) = Some ([''/stale/bar\<newline>''] @ [])"
    by (simp add: eval_defs env_headerless_def)
  have h2: "\<forall>l\<in>set [''/stale/bar\<newline>'']. \<not> rejecting (ros_root ?m) (ros_package_path ?m) l"
    by (simp add: rejecting_def cl)
  have h3: "(\<exists>h post. [] = h # post \<and> rejecting (ros_root ?m) (ros_package_path ?m) h)
      \<or> ([] = ([] :: string list)
           \<and> \<not> (has_root_header [''/stale/bar\<newline>''] \<and> has_path_header [''/stale/bar\<newline>'']))"
    by (simp add: has_root_header_def cl)
  have h4: "''/stale/bar\<newline>'' \<in> set [''/stale/bar\<newline>'']" by simp
  have h6: "location_cache ?m = None" by (simp add: eval_defs)
  have h7: "package_paths ?m \<noteq> []" by (simp add: eval_defs env_headerless_def)
  have nf: "\<forall>r\<in>set (compute_package_paths env_headerless (ros_root ?m) (ros_package_path ?m)).
      basename ''/stale/bar'' \<notin> set (fst (list_by_path env_headerless (manifest_name ?m) r (Some Map.empty)))"
    by (simp add: eval_defs env_headerless_def)
  have bn: "basename ''/stale/bar'' = ''bar''" by (simp add: basename_def)
  from rejected_snapshot_entries_survive[OF h1 h2 h3 h4 cl h6 h7] obtain q where
    q: "\<forall>c. fst (read_rospack_cache env_headerless (cache_name ?m) c (ros_root ?m) (ros_package_path ?m)) = False
          \<and> snd (read_rospack_cache env_headerless (cache_name ?m) c (ros_root ?m) (ros_package_path ?m))
               (basename ''/stale/bar'') = Some q"
       "fst (get_path env_headerless (basename ''/stale/bar'') ?m) = Inr q"
    using nf by blast
  have nm: "cache_name ?m = ''rospack_cache''" "ros_root ?m = ''/opt/ros''" "ros_package_path ?m = []"
    by (simp_all add: eval_defs)
  have "snd (read_rospack_cache env_headerless ''rospack_cache'' Map.empty ''/opt/ros'' []) ''bar''
       = Some ''/stale/bar''"
    by (simp add: eval_defs env_headerless_def)
  with q(1) nm bn have "q = ''/stale/bar''" by (metis option.inject)
  with q nm bn show ?thesis by metis
qed

section \<open>Manifests and dependencies\<close>


text \<open>
  \<open>get_manifest\<close> and \<open>_load_manifest\<close>: a manifest is parsed once and kept in \<open>_manifests\<close>.
\<close>

definition load_manifest :: "env \<Rightarrow> string \<Rightarrow> manager \<Rightarrow> (error + manifest) \<times> manager" where
  "load_manifest e name m =
     (case get_path e name m of
        (Inl err, m1) \<Rightarrow> (Inl err, m1)
      | (Inr p, m1) \<Rightarrow>
          (case parse_manifest_file e p (manifest_name m1) of
             Inl err \<Rightarrow> (Inl err, m1)
           | Inr mf \<Rightarrow> (Inr mf, m1\<lparr>manifests := (manifests m1)(name \<mapsto> mf)\<rparr>)))"

definition get_manifest :: "env \<Rightarrow> string \<Rightarrow> manager \<Rightarrow> (error + manifest) \<times> manager" where
  "get_manifest e name m =
     (case manifests m name of
        Some mf \<Rightarrow> (Inr mf, m)
      | None \<Rightarrow> load_manifest e name m)"

text \<open>
  \<open>s.update(xs)\<close> on a Python set. The iteration order of a set (and so the order of
  \<open>list(s)\<close>) is not fixed by the language; the model keeps insertion order, and every
  statement about a result speaks of \<open>set\<close> of the list only.
\<close>

definition set_update :: "string list \<Rightarrow> string list \<Rightarrow> string list" where
  "set_update s xs = fold (\<lambda>x acc. if x \<in> set acc then acc else acc @ [x]) xs s"

text \<open>
  \<open>get_depends\<close>. The first argument bounds the depth of the recursion (\<open>None\<close>: the bound
  was reached); termination is proved below for every bound above the number
  of known names. An exception leaves the instance as it was when raised, so the
  result pairs the outcome with the instance.

  The set \<open>s\<close> is the object stored under \<open>name\<close> in \<open>_depends_cache\<close>: every update of \<open>s\<close>
  is visible through the cache while the loop runs, which the model writes out. A
  recursive call never assigns to a key already present, so \<open>s\<close> stays that object
  until the final assignment of the list.
\<close>

fun get_depends ::
  "nat \<Rightarrow> env \<Rightarrow> string \<Rightarrow> bool \<Rightarrow> manager \<Rightarrow> ((error + string list) \<times> manager) option"
and depends_loop ::
  "nat \<Rightarrow> env \<Rightarrow> string \<Rightarrow> string list \<Rightarrow> string list \<Rightarrow> manager
     \<Rightarrow> ((error + string list) \<times> manager) option" where
  "get_depends 0 e name implicit m = None"
| "get_depends (Suc k) e name implicit m =
     (if \<not> implicit then
        (case get_manifest e name m of
           (Inl err, m1) \<Rightarrow> Some (Inl err, m1)
         | (Inr mf, m1) \<Rightarrow> Some (Inr (depends mf), m1))
      else
        (case depends_cache m name of
           Some s \<Rightarrow> Some (Inr s, m)
         | None \<Rightarrow>
             (case get_manifest e name m of
                (Inl err, m1) \<Rightarrow> Some (Inl err, m1)
              | (Inr mf, m1) \<Rightarrow>
                  (case depends_loop k e name (depends mf) []
                          (m1\<lparr>depends_cache := (depends_cache m1)(name \<mapsto> [])\<rparr>) of
                     None \<Rightarrow> None
                   | Some (Inl err, m3) \<Rightarrow> Some (Inl err, m3)
                   | Some (Inr s, m3) \<Rightarrow>
                       Some (Inr (set_update s (depends mf)),
                             m3\<lparr>depends_cache :=
                                  (depends_cache m3)(name \<mapsto> set_update s (depends mf))\<rparr>)))))"
| "depends_loop k e name [] s m = Some (Inr s, m)"
| "depends_loop k e name (p # ps) s m =
     (case get_depends k e p True m of
        None \<Rightarrow> None
      | Some (Inl err, m1) \<Rightarrow> Some (Inl err, m1)
      | Some (Inr r, m1) \<Rightarrow>
          depends_loop k e name ps (set_update s r)
            (m1\<lparr>depends_cache := (depends_cache m1)(name \<mapsto> set_update s r)\<rparr>))"

lemma set_set_update [simp]: "set (set_update s xs) = set s \<union> set xs"
  unfolding set_update_def by (induction xs arbitrary: s) auto

definition index_of :: "env \<Rightarrow> manager \<Rightarrow> (string \<rightharpoonup> string)" where
  "index_of e m = the_index (update_location_cache e m)"

lemma update_location_cache_idem:
  "update_location_cache e (update_location_cache e m) = update_location_cache e m"
  by (auto simp: update_location_cache_def split: option.splits prod.splits bool.splits)

lemma get_path_fields:
  assumes "get_path e n m = (r, m1)"
  shows "m1 = update_location_cache e m"
  using assms by (auto simp: get_path_def Let_def split: option.splits)

lemma ulc_fields [simp]:
  "manifests (update_location_cache e m) = manifests m"
  "depends_cache (update_location_cache e m) = depends_cache m"
  "rosdeps_cache (update_location_cache e m) = rosdeps_cache m"
  "manifest_name (update_location_cache e m) = manifest_name m"
  "cache_name (update_location_cache e m) = cache_name m"
  "ros_root (update_location_cache e m) = ros_root m"
  "ros_package_path (update_location_cache e m) = ros_package_path m"
  "package_paths (update_location_cache e m) = package_paths m"
  by (auto simp: update_location_cache_def split: option.splits prod.splits bool.splits)

lemma index_of_ulc [simp]: "index_of e (update_location_cache e m) = index_of e m"
  by (simp add: index_of_def update_location_cache_idem)

lemma index_of_upd [simp]:
  "index_of e (m\<lparr>manifests := x\<rparr>) = index_of e m"
  "index_of e (m\<lparr>depends_cache := y\<rparr>) = index_of e m"
  "index_of e (m\<lparr>rosdeps_cache := z\<rparr>) = index_of e m"
  by (auto simp: index_of_def update_location_cache_def the_index_def
      split: option.splits prod.splits bool.splits)

definition frame :: "env \<Rightarrow> manager \<Rightarrow> manager \<Rightarrow> bool" where
  "frame e m m' \<longleftrightarrow>
     index_of e m' = index_of e m \<and> manifests m \<subseteq>\<^sub>m manifests m' \<and>
     dom (manifests m') \<subseteq> dom (manifests m) \<union> dom (index_of e m) \<and>
     rosdeps_cache m' = rosdeps_cache m"

lemma frame_refl [simp]: "frame e m m"
  by (simp add: frame_def)

lemma frame_trans:
  assumes "frame e m m1" and "frame e m1 m2"
  shows "frame e m m2"
proof -
  have "dom (manifests m2) \<subseteq> dom (manifests m1) \<union> dom (index_of e m)"
    using assms by (simp add: frame_def)
  moreover have "dom (manifests m1) \<subseteq> dom (manifests m) \<union> dom (index_of e m)"
    using assms by (simp add: frame_def)
  ultimately have "dom (manifests m2) \<subseteq> dom (manifests m) \<union> dom (index_of e m)"
    by blast
  moreover have "manifests m \<subseteq>\<^sub>m manifests m2"
    using assms unfolding frame_def by (blast intro: map_le_trans)
  ultimately show ?thesis using assms by (simp add: frame_def)
qed

lemma frame_dc_upd [simp]:
  "frame e m (m'\<lparr>depends_cache := x\<rparr>) = frame e m m'"
  "frame e (m\<lparr>depends_cache := x\<rparr>) m' = frame e m m'"
  by (simp_all add: frame_def)

lemma get_path_result:
  "get_path e n m =
     (case index_of e m n of
        None \<Rightarrow> Inl (ResourceNotFound (AStr n) (ros_root m) (ros_package_path m))
      | Some p \<Rightarrow> Inr p,
      update_location_cache e m)"
  by (simp add: get_path_def index_of_def Let_def split: option.splits)

lemma frame_ulc [simp]: "frame e m (update_location_cache e m)"
  by (simp add: frame_def)

lemma get_manifest_frame:
  assumes "get_manifest e n m = (r, m')"
  shows "frame e m m'" and "depends_cache m' = depends_cache m"
proof -
  show "depends_cache m' = depends_cache m"
    using assms
    by (auto simp: get_manifest_def load_manifest_def get_path_result
        split: option.splits sum.splits)
  show "frame e m m'"
  proof (cases "manifests m n")
    case (Some mf)
    with assms show ?thesis by (simp add: get_manifest_def)
  next
    case None
    show ?thesis
    proof (cases "index_of e m n")
      case inone: None
      with None assms show ?thesis
        by (auto simp: get_manifest_def load_manifest_def get_path_result)
    next
      case (Some p)
      show ?thesis
      proof (cases "parse_manifest_file e p (manifest_name m)")
        case (Inl err)
        with None Some assms show ?thesis
          by (auto simp: get_manifest_def load_manifest_def get_path_result)
      next
        case (Inr mf)
        with None Some assms
        have m': "m' = (update_location_cache e m)\<lparr>manifests := (manifests m)(n \<mapsto> mf)\<rparr>"
          by (auto simp: get_manifest_def load_manifest_def get_path_result)
        have "manifests m \<subseteq>\<^sub>m (manifests m)(n \<mapsto> mf)"
          using None by (auto simp: map_le_def)
        moreover have "n \<in> dom (index_of e m)" using Some by blast
        ultimately show ?thesis unfolding frame_def m' by auto
      qed
    qed
  qed
qed

lemma get_manifest_Inr:
  assumes "get_manifest e n m = (Inr mf, m')"
  shows "manifests m' n = Some mf"
  using assms
  by (auto simp: get_manifest_def load_manifest_def get_path_result
      split: option.splits sum.splits)

lemma get_depends_direct:
  "get_depends (Suc k) e n False m =
     (case get_manifest e n m of
        (Inl err, m1) \<Rightarrow> Some (Inl err, m1)
      | (Inr mf, m1) \<Rightarrow> Some (Inr (depends mf), m1))"
  by simp

lemma get_depends_hit:
  "depends_cache m n = Some s \<Longrightarrow> get_depends (Suc k) e n True m = Some (Inr s, m)"
  by simp

lemma get_depends_cases:
  assumes "get_depends (Suc k) e n True m = Some (r, m')"
  obtains
    (hit) s where "depends_cache m n = Some s" "r = Inr s" "m' = m"
  | (no_manifest) err where "depends_cache m n = None" "get_manifest e n m = (Inl err, m')"
      "r = Inl err"
  | (loop_raised) mf m1 err where "depends_cache m n = None" "get_manifest e n m = (Inr mf, m1)"
      "depends_loop k e n (depends mf) [] (m1\<lparr>depends_cache := (depends_cache m1)(n \<mapsto> [])\<rparr>)
         = Some (Inl err, m')" "r = Inl err"
  | (computed) mf m1 s m3 where "depends_cache m n = None" "get_manifest e n m = (Inr mf, m1)"
      "depends_loop k e n (depends mf) [] (m1\<lparr>depends_cache := (depends_cache m1)(n \<mapsto> [])\<rparr>)
         = Some (Inr s, m3)" "r = Inr (set_update s (depends mf))"
      "m' = m3\<lparr>depends_cache := (depends_cache m3)(n \<mapsto> set_update s (depends mf))\<rparr>"
  using assms
  by (auto split: option.splits prod.splits sum.splits)

lemma depends_loop_cases:
  assumes "depends_loop k e name (p # ps) s m = Some (r, m')"
  obtains
    (raised) err where "get_depends k e p True m = Some (Inl err, m')" "r = Inl err"
  | (continued) q m1 where "get_depends k e p True m = Some (Inr q, m1)"
      "depends_loop k e name ps (set_update s q)
         (m1\<lparr>depends_cache := (depends_cache m1)(name \<mapsto> set_update s q)\<rparr>) = Some (r, m')"
  using assms
  by (auto split: option.splits prod.splits sum.splits)

declare get_depends.simps [simp del] depends_loop.simps(2) [simp del]

lemma map_le_by_entries:
  assumes "\<And>x v. f x = Some v \<Longrightarrow> g x = Some v"
  shows "f \<subseteq>\<^sub>m g"
  unfolding map_le_def
proof
  fix a assume "a \<in> dom f"
  then obtain y where y: "f a = Some y" by blast
  with assms have "g a = Some y" by blast
  with y show "f a = g a" by simp
qed

lemma depends_loop_frame:
  assumes get: "\<And>p m r m'. get_depends k e p True m = Some (r, m') \<Longrightarrow>
      frame e m m' \<and> depends_cache m \<subseteq>\<^sub>m depends_cache m'"
  shows "depends_loop k e name ps s m = Some (r, m') \<Longrightarrow>
     frame e m m' \<and> (\<forall>x v. x \<noteq> name \<longrightarrow> depends_cache m x = Some v \<longrightarrow> depends_cache m' x = Some v)
     \<and> (name \<in> dom (depends_cache m) \<longrightarrow> name \<in> dom (depends_cache m'))"
proof (induction ps arbitrary: s m)
  case Nil
  then show ?case by simp
next
  case (Cons p ps)
  from Cons.prems show ?case
  proof (cases rule: depends_loop_cases)
    case (raised err)
    from get[OF raised(1)] show ?thesis by (auto simp: map_le_def dom_def)
  next
    case (continued q m1)
    from get[OF continued(1)] have a: "frame e m m1" "depends_cache m \<subseteq>\<^sub>m depends_cache m1"
      by auto
    from Cons.IH[OF continued(2)] have b:
      "frame e m1 m'"
      "\<forall>x v. x \<noteq> name \<longrightarrow> depends_cache m1 x = Some v \<longrightarrow> depends_cache m' x = Some v"
      "name \<in> dom (depends_cache m')"
      by auto
    have "frame e m m'" using a(1) b(1) by (rule frame_trans)
    moreover have "\<forall>x v. x \<noteq> name \<longrightarrow> depends_cache m x = Some v \<longrightarrow> depends_cache m' x = Some v"
    proof (intro allI impI)
      fix x v assume xv: "x \<noteq> name" "depends_cache m x = Some v"
      from a(2) xv(2) have "depends_cache m1 x = Some v" by (metis map_le_def domI)
      with b(2) xv(1) show "depends_cache m' x = Some v" by blast
    qed
    ultimately show ?thesis using b(3) by simp
  qed
qed

lemma get_depends_frame:
  "get_depends k e n i m = Some (r, m') \<Longrightarrow>
     frame e m m' \<and> depends_cache m \<subseteq>\<^sub>m depends_cache m'"
proof (induction k arbitrary: n i m r m')
  case 0
  then show ?case by (simp add: get_depends.simps)
next
  case (Suc k)
  show ?case
  proof (cases i)
    case False
    with Suc.prems show ?thesis
      by (auto simp: get_depends_direct get_manifest_frame split: prod.splits sum.splits)
  next
    case True
    have IH: "\<And>p m r m'. get_depends k e p True m = Some (r, m') \<Longrightarrow>
        frame e m m' \<and> depends_cache m \<subseteq>\<^sub>m depends_cache m'"
      by (rule Suc.IH)
    from True Suc.prems have "get_depends (Suc k) e n True m = Some (r, m')" by simp
    then show ?thesis
    proof (cases rule: get_depends_cases)
      case (hit s)
      then show ?thesis by simp
    next
      case (no_manifest err)
      then show ?thesis by (simp add: get_manifest_frame)
    next
      case (loop_raised mf m1 err)
      note gm = get_manifest_frame[OF loop_raised(2)]
      from depends_loop_frame[OF IH loop_raised(3)] have lp: "frame e m1 m'"
        "\<forall>x v. x \<noteq> n \<longrightarrow> depends_cache m1 x = Some v \<longrightarrow> depends_cache m' x = Some v"
        by auto
      have "frame e m m'" using gm(1) lp(1) by (rule frame_trans)
      moreover have "depends_cache m \<subseteq>\<^sub>m depends_cache m'"
      proof (rule map_le_by_entries)
        fix x v assume xv: "depends_cache m x = Some v"
        with loop_raised(1) have "x \<noteq> n" by auto
        with lp(2) gm(2) xv show "depends_cache m' x = Some v" by simp
      qed
      ultimately show ?thesis by simp
    next
      case (computed mf m1 s m3)
      note gm = get_manifest_frame[OF computed(2)]
      from depends_loop_frame[OF IH computed(3)] have lp: "frame e m1 m3"
        "\<forall>x v. x \<noteq> n \<longrightarrow> depends_cache m1 x = Some v \<longrightarrow> depends_cache m3 x = Some v"
        by auto
      have "frame e m m3" using gm(1) lp(1) by (rule frame_trans)
      then have "frame e m m'" by (simp add: computed(5))
      moreover have "depends_cache m \<subseteq>\<^sub>m depends_cache m'"
      proof (rule map_le_by_entries)
        fix x v assume xv: "depends_cache m x = Some v"
        with computed(1) have "x \<noteq> n" by auto
        with lp(2) gm(2) xv show "depends_cache m' x = Some v" by (simp add: computed(5))
      qed
      ultimately show ?thesis by simp
    qed
  qed
qed

subsection \<open>Termination and closure of the dependency computation\<close>


definition known :: "env \<Rightarrow> manager \<Rightarrow> string set" where
  "known e m = dom (manifests m) \<union> dom (index_of e m)"

definition pending :: "env \<Rightarrow> manager \<Rightarrow> string set" where
  "pending e m = known e m - dom (depends_cache m)"


lemma known_dc_upd [simp]: "known e (m\<lparr>depends_cache := x\<rparr>) = known e m"
  by (simp add: known_def)




lemma get_depends_idem:
  assumes "get_depends k e n True m = Some (Inr r, m')"
  shows "depends_cache m' n = Some r"
proof (cases k)
  case 0
  with assms show ?thesis by (simp add: get_depends.simps)
next
  case (Suc j)
  with assms have "get_depends (Suc j) e n True m = Some (Inr r, m')" by simp
  then show ?thesis by (cases rule: get_depends_cases) auto
qed

lemma depends_loop_frame':
  assumes "depends_loop k e name ps s m = Some (r, m')"
  shows "frame e m m'"
    and "x \<noteq> name \<Longrightarrow> depends_cache m x = Some v \<Longrightarrow> depends_cache m' x = Some v"
    and "name \<in> dom (depends_cache m) \<Longrightarrow> name \<in> dom (depends_cache m')"
proof -
  have l: "frame e m m' \<and>
     (\<forall>x v. x \<noteq> name \<longrightarrow> depends_cache m x = Some v \<longrightarrow> depends_cache m' x = Some v) \<and>
     (name \<in> dom (depends_cache m) \<longrightarrow> name \<in> dom (depends_cache m'))"
    by (rule depends_loop_frame[OF _ assms]) (rule get_depends_frame, assumption)
  show "frame e m m'" using l by simp
  show "x \<noteq> name \<Longrightarrow> depends_cache m x = Some v \<Longrightarrow> depends_cache m' x = Some v"
    using l by blast
  show "name \<in> dom (depends_cache m) \<Longrightarrow> name \<in> dom (depends_cache m')"
    using l by blast
qed

lemma dom_dc_loop:
  assumes "depends_loop k e name ps s m = Some (r, m')" and "name \<in> dom (depends_cache m)"
  shows "dom (depends_cache m) \<subseteq> dom (depends_cache m')"
proof
  fix x assume "x \<in> dom (depends_cache m)"
  then obtain v where v: "depends_cache m x = Some v" by blast
  show "x \<in> dom (depends_cache m')"
  proof (cases "x = name")
    case True
    with depends_loop_frame'(3)[OF assms] show ?thesis by simp
  next
    case False
    from depends_loop_frame'(2)[OF assms(1) False v] show ?thesis by blast
  qed
qed

definition entries_in_dom :: "manager \<Rightarrow> bool" where
  "entries_in_dom m \<longleftrightarrow>
     (\<forall>x s. depends_cache m x = Some s \<longrightarrow> set s \<subseteq> dom (depends_cache m))"

definition new_entries_ok :: "manager \<Rightarrow> manager \<Rightarrow> string list \<Rightarrow> bool" where
  "new_entries_ok m m' r \<longleftrightarrow>
     (\<forall>x sx. depends_cache m x = None \<longrightarrow> depends_cache m' x = Some sx \<longrightarrow>
        set sx \<subseteq> set r \<and> (\<exists>mf. manifests m' x = Some mf \<and> set (depends mf) \<subseteq> set sx))"

definition closure_ok :: "manager \<Rightarrow> manager \<Rightarrow> string \<Rightarrow> string list \<Rightarrow> bool" where
  "closure_ok m m' p r \<longleftrightarrow>
     depends_cache m' p = Some r \<and> new_entries_ok m m' r \<and>
     (entries_in_dom m \<longrightarrow> entries_in_dom m' \<and> set r \<subseteq> dom (depends_cache m'))"

lemma depends_loop_closure:
  assumes get: "\<And>p m q m1. get_depends k e p True m = Some (Inr q, m1) \<Longrightarrow> closure_ok m m1 p q"
  shows "depends_loop k e name ps s m = Some (Inr sf, m') \<Longrightarrow> depends_cache m name = Some s \<Longrightarrow>
     depends_cache m' name = Some sf \<and> set s \<subseteq> set sf \<and> new_entries_ok m m' sf \<and>
     (entries_in_dom m \<longrightarrow> entries_in_dom m' \<and> set ps \<subseteq> dom (depends_cache m'))"
proof (induction ps arbitrary: s m)
  case Nil
  then show ?case by (simp add: new_entries_ok_def)
next
  case (Cons p ps)
  from Cons.prems(1) show ?case
  proof (cases rule: depends_loop_cases)
    case (raised err)
    then show ?thesis by simp
  next
    case (continued q m1)
    let ?s = "set_update s q"
    let ?m = "m1\<lparr>depends_cache := (depends_cache m1)(name \<mapsto> ?s)\<rparr>"
    from get[OF continued(1)] have g: "depends_cache m1 p = Some q" "new_entries_ok m m1 q"
      "entries_in_dom m \<longrightarrow> entries_in_dom m1 \<and> set q \<subseteq> dom (depends_cache m1)"
      by (auto simp: closure_ok_def)
    from get_depends_frame[OF continued(1)] have f1: "depends_cache m \<subseteq>\<^sub>m depends_cache m1"
      by simp
    have nm1: "depends_cache m1 name = Some s"
      using f1 Cons.prems(2) by (metis map_le_def domI)
    have nm: "depends_cache ?m name = Some ?s" by simp
    from Cons.IH[OF continued(2) nm] have ih:
      "depends_cache m' name = Some sf" "set ?s \<subseteq> set sf" "new_entries_ok ?m m' sf"
      "entries_in_dom ?m \<longrightarrow> entries_in_dom m' \<and> set ps \<subseteq> dom (depends_cache m')"
      by auto
    note fl = depends_loop_frame'[OF continued(2)]
    have keep: "depends_cache m' x = Some v" if "x \<noteq> name" "depends_cache m1 x = Some v" for x v
      using fl(2)[of x v] that by simp
    have man: "manifests m' x = Some mf" if "manifests m1 x = Some mf" for x mf
      using fl(1) that unfolding frame_def by (simp add: map_le_def) (metis domI)
    have new: "new_entries_ok m m' sf"
      unfolding new_entries_ok_def
    proof (intro allI impI)
      fix x sx assume x: "depends_cache m x = None" "depends_cache m' x = Some sx"
      from x(1) Cons.prems(2) have xn: "x \<noteq> name" by auto
      show "set sx \<subseteq> set sf \<and> (\<exists>mf. manifests m' x = Some mf \<and> set (depends mf) \<subseteq> set sx)"
      proof (cases "depends_cache m1 x")
        case None
        with xn have "depends_cache ?m x = None" by simp
        with ih(3) x(2) show ?thesis unfolding new_entries_ok_def by blast
      next
        case (Some y)
        from keep[OF xn Some] x(2) have sxy: "sx = y" by simp
        from g(2) x(1) Some obtain mf where
          y: "set y \<subseteq> set q" "manifests m1 x = Some mf" "set (depends mf) \<subseteq> set y"
          unfolding new_entries_ok_def by blast
        have "set y \<subseteq> set sf" using y(1) ih(2) by auto
        with sxy y(3) man[OF y(2)] show ?thesis by auto
      qed
    qed
    have dom_part: "entries_in_dom m' \<and> set (p # ps) \<subseteq> dom (depends_cache m')"
      if eid: "entries_in_dom m"
    proof -
      from g(3) eid have e1: "entries_in_dom m1" "set q \<subseteq> dom (depends_cache m1)" by auto
      have "set s \<subseteq> dom (depends_cache m)"
        using eid Cons.prems(2) unfolding entries_in_dom_def by blast
      then have s1: "set s \<subseteq> dom (depends_cache m1)"
        using map_le_implies_dom_le[OF f1] by blast
      have dm: "dom (depends_cache ?m) = dom (depends_cache m1)" using nm1 by auto
      have "entries_in_dom ?m"
        unfolding entries_in_dom_def
      proof (intro allI impI)
        fix x v assume "depends_cache ?m x = Some v"
        then show "set v \<subseteq> dom (depends_cache ?m)"
          using e1 s1 dm unfolding entries_in_dom_def
          by (cases "x = name") (auto split: if_splits)
      qed
      with ih(4) have r: "entries_in_dom m'" "set ps \<subseteq> dom (depends_cache m')" by auto
      have "p \<in> dom (depends_cache ?m)" using g(1) dm by blast
      moreover have "dom (depends_cache ?m) \<subseteq> dom (depends_cache m')"
        by (rule dom_dc_loop[OF continued(2)]) simp
      ultimately show ?thesis using r by auto
    qed
    show ?thesis using ih(1,2) new dom_part by auto
  qed
qed

lemma get_depends_closure:
  "get_depends k e p True m = Some (Inr q, m') \<Longrightarrow> closure_ok m m' p q"
proof (induction k arbitrary: p m q m')
  case 0
  then show ?case by (simp add: get_depends.simps)
next
  case (Suc k)
  from Suc.prems show ?case
  proof (cases rule: get_depends_cases)
    case (hit s)
    then show ?thesis
      by (auto simp: closure_ok_def new_entries_ok_def entries_in_dom_def)
  next
    case (no_manifest err)
    then show ?thesis by simp
  next
    case (loop_raised mf m1 err)
    then show ?thesis by simp
  next
    case (computed mf m1 s m3)
    let ?m2 = "m1\<lparr>depends_cache := (depends_cache m1)(p \<mapsto> [])\<rparr>"
    from computed(4) have q: "q = set_update s (depends mf)" by simp
    note gm = get_manifest_frame[OF computed(2)]
    have mf1: "manifests m1 p = Some mf" by (rule get_manifest_Inr[OF computed(2)])
    have nm2: "depends_cache ?m2 p = Some []" by simp
    have lp: "depends_cache m3 p = Some s \<and> set [] \<subseteq> set s \<and> new_entries_ok ?m2 m3 s \<and>
        (entries_in_dom ?m2 \<longrightarrow> entries_in_dom m3 \<and> set (depends mf) \<subseteq> dom (depends_cache m3))"
      by (rule depends_loop_closure[OF _ computed(3) nm2]) (rule Suc.IH, assumption)
    note fl = depends_loop_frame'[OF computed(3)]
    have mf3: "manifests m3 p = Some mf"
      using fl(1) mf1 unfolding frame_def by (simp add: map_le_def) (metis domI)
    have new: "new_entries_ok m m' q"
      unfolding new_entries_ok_def
    proof (intro allI impI)
      fix x sx assume x: "depends_cache m x = None" "depends_cache m' x = Some sx"
      show "set sx \<subseteq> set q \<and> (\<exists>mf. manifests m' x = Some mf \<and> set (depends mf) \<subseteq> set sx)"
      proof (cases "x = p")
        case True
        with x(2) computed(5) q have "sx = q" by simp
        with True mf3 computed(5) q show ?thesis by simp
      next
        case False
        with x gm(2) computed(5) have "depends_cache ?m2 x = None" "depends_cache m3 x = Some sx"
          by simp_all
        with lp obtain mfx where "set sx \<subseteq> set s" "manifests m3 x = Some mfx"
          "set (depends mfx) \<subseteq> set sx"
          unfolding new_entries_ok_def by blast
        then show ?thesis using q computed(5) by auto
      qed
    qed
    have dom_part: "entries_in_dom m' \<and> set q \<subseteq> dom (depends_cache m')" if eid: "entries_in_dom m"
    proof -
      have "entries_in_dom ?m2"
        using eid gm(2) unfolding entries_in_dom_def by (auto split: if_splits)
      with lp have e3: "entries_in_dom m3" "set (depends mf) \<subseteq> dom (depends_cache m3)" by auto
      have s3: "set s \<subseteq> dom (depends_cache m3)"
        using e3(1) lp unfolding entries_in_dom_def by blast
      have dm: "dom (depends_cache m') = dom (depends_cache m3)"
        using lp computed(5) by auto
      have qd: "set q \<subseteq> dom (depends_cache m')" using q s3 e3(2) dm by auto
      have "entries_in_dom m'"
        unfolding entries_in_dom_def
      proof (intro allI impI)
        fix x v assume xv: "depends_cache m' x = Some v"
        show "set v \<subseteq> dom (depends_cache m')"
        proof (cases "x = p")
          case True
          with xv computed(5) q have "v = q" by simp
          with qd show ?thesis by simp
        next
          case False
          with xv computed(5) have "depends_cache m3 x = Some v" by simp
          with e3(1) have "set v \<subseteq> dom (depends_cache m3)"
            unfolding entries_in_dom_def by blast
          with dm show ?thesis by simp
        qed
      qed
      with qd show ?thesis by simp
    qed
    show ?thesis unfolding closure_ok_def using new dom_part computed(5) q by simp
  qed
qed

section \<open>A dependency cycle\<close>



text \<open>
  Two packages under the root \<open>/r\<close> whose manifests list each other: \<open>p1\<close> depends on \<open>p2\<close>
  and \<open>p2\<close> on \<open>p1\<close>.
\<close>

definition cycle_manifest :: "string \<Rightarrow> string \<Rightarrow> error + manifest" where
  "cycle_manifest d mn =
     (if d = ''/r/p1'' then Inr \<lparr>version = None, depends = [''p2''], rosdeps = [''r1'']\<rparr>
      else if d = ''/r/p2'' then Inr \<lparr>version = None, depends = [''p1''], rosdeps = [''r2'']\<rparr>
      else Inl InvalidManifest)"

definition env_cycle :: env where
  "env_cycle =
     env_base\<lparr> tree_at := (\<lambda>p. if p = ''/r''
                  then Some (Dir [] [(''p1'', pkg_dir), (''p2'', pkg_dir)]) else None),
               parse_manifest_file := cycle_manifest \<rparr>"

text \<open>
  A new \<open>RosPack\<close> on that root, and the same instance after one call
  \<open>get_depends('p1')\<close>.
\<close>

definition cycle_start :: manager where
  "cycle_start = new_RosPack env_cycle ''/r'' []"

definition cycle_after :: manager where
  "cycle_after = snd (the (get_depends (Suc (Suc (Suc 0))) env_cycle ''p1'' True cycle_start))"

lemmas cycle_defs = get_depends.simps depends_loop.simps get_manifest_def load_manifest_def
  set_update_def env_cycle_def cycle_manifest_def cycle_start_def


lemma cycle_run:
  "map_option fst (get_depends (Suc (Suc (Suc 0))) env_cycle ''p1'' True cycle_start)
     = Some (Inr [''p1'', ''p2''])"
  by (simp add: eval_defs cycle_defs)

lemma cycle_after_cache:
  "depends_cache cycle_after ''p1'' = Some [''p1'', ''p2'']"
  "depends_cache cycle_after ''p2'' = Some [''p1'']"
  by (simp_all add: cycle_after_def eval_defs cycle_defs)

lemma cycle_run_full:
  "get_depends (Suc (Suc (Suc 0))) env_cycle ''p1'' True cycle_start
     = Some (Inr [''p1'', ''p2''], cycle_after)"
  using cycle_run unfolding cycle_after_def
  by (cases "get_depends (Suc (Suc (Suc 0))) env_cycle ''p1'' True cycle_start") auto

lemma cycle_after_manifest:
  "manifests cycle_after ''p1'' = Some \<lparr>version = None, depends = [''p2''], rosdeps = [''r1'']\<rparr>"
  by (simp add: cycle_after_def eval_defs cycle_defs)

lemma cycle_after_direct:
  "get_depends (Suc 0) env_cycle ''p1'' False cycle_after = Some (Inr [''p2''], cycle_after)"
  by (simp add: get_depends.simps get_manifest_def cycle_after_manifest)



section \<open>The memoized closure (C9)\<close>

text \<open>
  C9: when \<open>get_depends(n, implicit=True)\<close> has returned the set \<open>r\<close> and left the instance
  \<open>m1\<close>, a second call on \<open>m1\<close> returns \<open>r\<close> again and leaves \<open>m1\<close> as it is, in every
  environment \<open>e'\<close>: whatever the file system and the manifest parser have become in the
  meantime, the call answers from \<open>_depends_cache\<close> and reads nothing.
\<close>

theorem memoized_closure_returned:
  assumes "get_depends k e n True m = Some (Inr r, m1)"
  shows "get_depends (Suc j) e' n True m1 = Some (Inr r, m1)"
proof -
  from assms have "depends_cache m1 n = Some r" by (rule get_depends_idem)
  then show ?thesis by (rule get_depends_hit)
qed

text \<open>
  C9 on the cycle: the second call runs in \<open>env_base\<close>, where the file system is empty and
  no manifest parses.
\<close>

theorem memoized_closure_returned_witness:
  "get_depends (Suc (Suc (Suc 0))) env_cycle ''p1'' True cycle_start
     = Some (Inr [''p1'', ''p2''], cycle_after)
   \<and> get_depends (Suc 0) env_base ''p1'' True cycle_after = Some (Inr [''p1'', ''p2''], cycle_after)"
  using memoized_closure_returned[OF cycle_run_full, of 0 env_base] cycle_run_full by simp

section \<open>The closure as a fixed point (C2)\<close>

text \<open>
  C2, as stated, for \<open>n = p2\<close> on the instance left by one call \<open>get_depends('p1')\<close>: when
  \<open>p2\<close> was visited from within the cycle, \<open>p1\<close> had only its empty placeholder, so
  the set memoized for \<open>p2\<close> is \<open>{p1}\<close>. Its only member \<open>p1\<close> has the closure \<open>{p1, p2}\<close>,
  which adds \<open>p2\<close>: the set returned for \<open>p2\<close> is not a fixed point.
\<close>

theorem closure_not_fixed_point_counterexample:
  "map_option fst (get_depends (Suc 0) env_cycle ''p2'' True cycle_after) = Some (Inr [''p1''])
   \<and> map_option fst (get_depends (Suc 0) env_cycle ''p1'' True cycle_after)
       = Some (Inr [''p1'', ''p2''])
   \<and> \<not> set [''p1'', ''p2''] \<subseteq> set [''p1'']"
  by (simp add: get_depends_hit cycle_after_cache)

text \<open>
  C2, amended: on an instance whose \<open>_depends_cache\<close> is empty, let
  \<open>get_depends(n, implicit=True)\<close> return \<open>T\<close>. Then on the instance it leaves,
  \<open>get_depends(n, implicit=False)\<close> is a subset of \<open>T\<close>, and for every member \<open>x\<close> of \<open>T\<close>
  the set \<open>get_depends(x, implicit=True)\<close> is a subset of \<open>T\<close>; no call changes the
  instance. This holds for every dependency graph, cycles included.
\<close>

theorem fresh_closure_fixed_point:
  assumes fresh: "depends_cache m = Map.empty"
    and run: "get_depends k e n True m = Some (Inr T, m1)"
  shows "(\<exists>D. get_depends (Suc j) e' n False m1 = Some (Inr D, m1) \<and> set D \<subseteq> set T)
       \<and> (\<forall>x\<in>set T. \<exists>Tx. get_depends (Suc j) e' x True m1 = Some (Inr Tx, m1)
             \<and> set Tx \<subseteq> set T)"
proof -
  from get_depends_closure[OF run] have cl: "closure_ok m m1 n T" .
  from fresh have eid: "entries_in_dom m" by (simp add: entries_in_dom_def)
  from cl eid have T: "depends_cache m1 n = Some T" "new_entries_ok m m1 T"
    "set T \<subseteq> dom (depends_cache m1)"
    unfolding closure_ok_def by simp_all
  from T(1,2) fresh obtain mf where mf: "manifests m1 n = Some mf" "set (depends mf) \<subseteq> set T"
    unfolding new_entries_ok_def by fastforce
  from mf(1) have "get_depends (Suc j) e' n False m1 = Some (Inr (depends mf), m1)"
    by (simp add: get_depends.simps get_manifest_def)
  with mf(2) have direct: "\<exists>D. get_depends (Suc j) e' n False m1 = Some (Inr D, m1) \<and> set D \<subseteq> set T"
    by simp
  have members: "\<exists>Tx. get_depends (Suc j) e' x True m1 = Some (Inr Tx, m1) \<and> set Tx \<subseteq> set T"
    if x: "x \<in> set T" for x
  proof -
    from x T(3) obtain Tx where Tx: "depends_cache m1 x = Some Tx" by blast
    with T(2) fresh have "set Tx \<subseteq> set T" unfolding new_entries_ok_def by fastforce
    with get_depends_hit[OF Tx] show ?thesis by simp
  qed
  from direct members show ?thesis by blast
qed

text \<open>The amended C2 for \<open>n = p1\<close> on the cycle.\<close>

theorem fresh_closure_fixed_point_witness:
  "get_depends (Suc 0) env_cycle ''p1'' False cycle_after = Some (Inr [''p2''], cycle_after)
   \<and> get_depends (Suc 0) env_cycle ''p1'' True cycle_after
       = Some (Inr [''p1'', ''p2''], cycle_after)
   \<and> get_depends (Suc 0) env_cycle ''p2'' True cycle_after = Some (Inr [''p1''], cycle_after)
   \<and> set [''p2''] \<subseteq> set [''p1'', ''p2''] \<and> set [''p1''] \<subseteq> set [''p1'', ''p2'']"
proof -
  have h1: "depends_cache cycle_start = Map.empty" by (simp add: cycle_start_def eval_defs)
  from fresh_closure_fixed_point[OF h1 cycle_run_full, of 0 env_cycle] show ?thesis
    by (simp add: cycle_after_direct get_depends_hit cycle_after_cache)
qed

section \<open>Manifests reached by the dependency computation\<close>



text \<open>
  \<open>manifest_at e m n\<close> is the manifest that \<open>get_manifest(n)\<close> returns on the instance \<open>m\<close>
  (\<open>None\<close> when it raises). \<open>deps_resolve\<close>: every name that has a manifest lists only
  names that have one. Neither changes during a call of \<open>get_depends\<close>.
\<close>

definition manifest_at :: "env \<Rightarrow> manager \<Rightarrow> string \<Rightarrow> manifest option" where
  "manifest_at e m n = (case fst (get_manifest e n m) of Inl err \<Rightarrow> None | Inr mf \<Rightarrow> Some mf)"


lemma manifest_at_alt:
  "manifest_at e m x =
     (case manifests m x of
        Some mf \<Rightarrow> Some mf
      | None \<Rightarrow>
          (case index_of e m x of
             None \<Rightarrow> None
           | Some p \<Rightarrow>
               (case parse_manifest_file e p (manifest_name m) of
                  Inl err \<Rightarrow> None
                | Inr mf \<Rightarrow> Some mf)))"
  by (simp add: manifest_at_def get_manifest_def load_manifest_def get_path_result
      split: option.splits sum.splits)

lemma manifest_at_dc_upd [simp]:
  "manifest_at e (m\<lparr>depends_cache := x\<rparr>) = manifest_at e m"
  by (rule ext) (simp add: manifest_at_alt split: option.splits sum.splits)

lemma manifest_at_ulc [simp]:
  "manifest_at e (update_location_cache e m) = manifest_at e m"
  by (rule ext) (simp add: manifest_at_alt split: option.splits sum.splits)








section \<open>Termination on cycles (C3)\<close>












section \<open>The stack of a package (C10)\<close>



text \<open>\<open>dirname\<close> returns a prefix of its argument, so the walk towards the root ends.\<close>

lemma rev_drop_take:
  "xs = rev (dropWhile P (rev xs)) @ rev (takeWhile P (rev xs))"
proof -
  have "rev (takeWhile P (rev xs) @ dropWhile P (rev xs)) = xs"
    by (simp only: takeWhile_dropWhile_id rev_rev_ident)
  then show ?thesis by (simp only: rev_append)
qed

lemma dirname_prefix: "\<exists>t. d = dirname d @ t"
proof -
  let ?head = "rev (dropWhile (\<lambda>c. c \<noteq> CHR ''/'') (rev d))"
  have d: "d = ?head @ rev (takeWhile (\<lambda>c. c \<noteq> CHR ''/'') (rev d))"
    by (rule rev_drop_take)
  have h: "?head = rstrip_slash ?head @ rev (takeWhile (\<lambda>c. c = CHR ''/'') (rev ?head))"
    unfolding rstrip_slash_def by (rule rev_drop_take)
  show ?thesis
  proof (cases "?head \<noteq> [] \<and> ?head \<noteq> replicate (length ?head) (CHR ''/'')")
    case True
    then have "dirname d = rstrip_slash ?head" by (simp add: dirname_def Let_def)
    with d h show ?thesis by (metis append.assoc)
  next
    case False
    then have "dirname d = ?head" by (auto simp: dirname_def Let_def)
    with d show ?thesis by metis
  qed
qed

lemma dirname_shorter: "dirname d \<noteq> d \<Longrightarrow> length (dirname d) < length d"
proof -
  assume ne: "dirname d \<noteq> d"
  obtain t where t: "d = dirname d @ t" using dirname_prefix by blast
  with ne have "t \<noteq> []" by auto
  then have "length (dirname d) < length (dirname d @ t)" by simp
  with t show ?thesis by simp
qed

text \<open>
  \<open>stack_of\<close>: the loop over \<open>d\<close>, starting at the directory of the package; falling out of
  the loop returns \<open>None\<close>. The loop stops at the empty string and at a directory that is
  its own \<open>dirname\<close> (the root), without looking for the marker there.
\<close>

function stack_walk :: "env \<Rightarrow> string \<Rightarrow> string option" where
  "stack_walk e d =
     (if d \<noteq> [] \<and> dirname d \<noteq> d then
        (if path_exists e (join d (STACK_FILE e)) then Some (basename d)
         else stack_walk e (dirname d))
      else None)"
  by pat_completeness auto
termination
  by (relation "measure (\<lambda>(e, d). length d)") (auto simp: dirname_shorter)

declare stack_walk.simps [simp del]

definition stack_of :: "env \<Rightarrow> string \<Rightarrow> manager \<Rightarrow> (error + string option) \<times> manager" where
  "stack_of e package m =
     (case get_path e package m of
        (Inl err, m') \<Rightarrow> (Inl err, m')
      | (Inr d, m') \<Rightarrow> (Inr (stack_walk e d), m'))"







text \<open>
  Two roots: \<open>/r\<close> holds the package \<open>p1\<close>; \<open>/s\<close> is a stack (it holds \<open>stack.xml\<close>) with the
  package \<open>p3\<close> two levels below. \<open>p4\<close> is nowhere.
\<close>

definition env_stacks :: env where
  "env_stacks =
     env_cycle\<lparr> path_exists := (\<lambda>p. p = ''/s/stack.xml''),
                tree_at := (\<lambda>p. if p = ''/r'' then Some (Dir [] [(''p1'', pkg_dir)])
                                else if p = ''/s'' then Some (Dir [] [(''q'', Dir [] [(''p3'', pkg_dir)])])
                                else None),
                compute_package_paths := (\<lambda>root rpp. [''/r'', ''/s'']) \<rparr>"

definition stacks_start :: manager where
  "stacks_start = new_RosPack env_stacks ''/r'' ''/s''"

lemma stacks_index:
  "index_of env_stacks stacks_start ''p1'' = Some ''/r/p1''"
  "index_of env_stacks stacks_start ''p3'' = Some ''/s/q/p3''"
  "index_of env_stacks stacks_start ''p4'' = None"
  by (simp_all add: index_of_def stacks_start_def env_stacks_def env_cycle_def eval_defs)


text \<open>The walk finds the stack of \<open>p3\<close>.\<close>

lemma stack_of_found:
  "fst (stack_of env_stacks ''p3'' stacks_start) = Inr (Some ''s'')"
proof -
  have "fst (stack_of env_stacks ''p3'' stacks_start) = Inr (stack_walk env_stacks ''/s/q/p3'')"
    by (simp add: stack_of_def get_path_result stacks_index)
  also have "stack_walk env_stacks ''/s/q/p3'' = Some ''s''"
    by (simp add: stack_walk.simps dirname_def rstrip_slash_def join_def startswith_def
        basename_def env_stacks_def env_cycle_def env_base_def)
  finally show ?thesis .
qed


section \<open>The version of a stack (C5)\<close>



text \<open>
  String methods used by \<open>_get_cmake_version\<close>: \<open>strip()\<close> removes the characters for which
  \<open>str.isspace\<close> holds (those below code point 256 are listed) from both ends;
  \<open>split_on P s\<close> cuts \<open>s\<close> at every character satisfying \<open>P\<close> and keeps empty pieces, as
  \<open>text.split('\n')\<close> and the split of the compiled pattern \<open>[()]\<close> do.
\<close>

definition isspace :: "char \<Rightarrow> bool" where
  "isspace c \<longleftrightarrow> c \<in> set [CHR 0x09, CHR 0x0A, CHR 0x0B, CHR 0x0C, CHR 0x0D, CHR 0x1C, CHR 0x1D,
                          CHR 0x1E, CHR 0x1F, CHR 0x20, CHR 0x85, CHR 0xA0]"

definition strip :: "string \<Rightarrow> string" where
  "strip s = rev (dropWhile isspace (rev (dropWhile isspace s)))"

fun split_acc :: "(char \<Rightarrow> bool) \<Rightarrow> string \<Rightarrow> string \<Rightarrow> string list" where
  "split_acc P cur [] = [rev cur]"
| "split_acc P cur (c # cs) =
     (if P c then rev cur # split_acc P [] cs else split_acc P (c # cur) cs)"

definition split_on :: "(char \<Rightarrow> bool) \<Rightarrow> string \<Rightarrow> string list" where
  "split_on P s = split_acc P [] s"

definition is_paren :: "char \<Rightarrow> bool" where
  "is_paren c \<longleftrightarrow> c = CHR ''('' \<or> c = CHR '')''"

definition is_newline :: "char \<Rightarrow> bool" where
  "is_newline c \<longleftrightarrow> c = CHR 0x0A"

text \<open>
  \<open>_get_cmake_version\<close>: the loop over the lines of the text. The first line that starts
  with \<open>rosbuild_make_distribution\<close> decides: \<open>ValueError\<close> when it has no parenthesis or
  when the piece after the first parenthesis is empty, else that piece. Without such a
  line the function falls off its end and returns \<open>None\<close>.
\<close>

fun cmake_lines :: "string list \<Rightarrow> error + string option" where
  "cmake_lines [] = Inr None"
| "cmake_lines (l # ls) =
     (if startswith (strip l) ''rosbuild_make_distribution'' then
        (let lsplit = split_on is_paren (strip l) in
         if length lsplit < 2 then Inl ValueError
         else if lsplit ! 1 \<noteq> [] then Inr (Some (lsplit ! 1))
         else Inl ValueError)
      else cmake_lines ls)"

definition get_cmake_version :: "string \<Rightarrow> error + string option" where
  "get_cmake_version text = cmake_lines (split_on is_newline text)"

text \<open>
  \<open>get_stack_version_by_dir\<close>: the version of the manifest when the stack file exists and
  its version is truthy (neither \<open>None\<close> nor empty); else the version from
  \<open>CMakeLists.txt\<close>, where \<open>except ValueError\<close> turns every \<open>ValueError\<close> into \<open>None\<close>. An
  exception of \<open>parse_manifest_file\<close> is not caught. \<open>get_stack_version\<close> is the method of
  \<open>RosStack\<close>.
\<close>

definition get_stack_version_by_dir :: "env \<Rightarrow> string \<Rightarrow> error + string option" where
  "get_stack_version_by_dir e stack_dir =
     (let from_cmake =
        (if isfile e (join stack_dir ''CMakeLists.txt'') then
           (case get_cmake_version (read_text e (join stack_dir ''CMakeLists.txt'')) of
              Inl ValueError \<Rightarrow> Inr None
            | Inl err \<Rightarrow> Inl err
            | Inr v \<Rightarrow> Inr v)
         else Inr None)
      in if isfile e (join stack_dir (STACK_FILE e)) then
           (case parse_manifest_file e stack_dir (STACK_FILE e) of
              Inl err \<Rightarrow> Inl err
            | Inr mf \<Rightarrow>
                (case version mf of
                   None \<Rightarrow> from_cmake
                 | Some v \<Rightarrow> if v \<noteq> [] then Inr (Some v) else from_cmake))
         else from_cmake)"

definition get_stack_version :: "env \<Rightarrow> string \<Rightarrow> manager \<Rightarrow> (error + string option) \<times> manager" where
  "get_stack_version e stack m =
     (case get_path e stack m of
        (Inl err, m') \<Rightarrow> (Inl err, m')
      | (Inr d, m') \<Rightarrow> (get_stack_version_by_dir e d, m'))"


lemma cmake_lines_raises_only_ValueError:
  "cmake_lines ls = Inl err \<Longrightarrow> err = ValueError"
  by (induction ls) (auto simp: Let_def split: if_splits)

text \<open>
  A root \<open>/r\<close> with one stack \<open>s\<close>: its \<open>stack.xml\<close> parses to a manifest without version,
  its \<open>CMakeLists.txt\<close> holds the given text.
\<close>

definition env_version :: "string \<Rightarrow> env" where
  "env_version text =
     env_base\<lparr> tree_at := (\<lambda>p. if p = ''/r''
                  then Some (Dir [] [(''s'', Dir [''stack.xml'', ''CMakeLists.txt''] [])]) else None),
               isfile := (\<lambda>p. p = ''/r/s/stack.xml'' \<or> p = ''/r/s/CMakeLists.txt''),
               parse_manifest_file := (\<lambda>d n. if d = ''/r/s'' \<and> n = ''stack.xml''
                  then Inr \<lparr>version = None, depends = [], rosdeps = []\<rparr> else Inl InvalidManifest),
               read_text := (\<lambda>p. if p = ''/r/s/CMakeLists.txt'' then text else []) \<rparr>"

lemmas version_defs = get_stack_version_def get_stack_version_by_dir_def get_cmake_version_def
  split_on_def is_paren_def is_newline_def strip_def isspace_def env_version_def new_RosStack_def


text \<open>A version that parses, a statement without parentheses, and no statement at all.\<close>

lemma version_examples:
  "get_cmake_version ''cmake_minimum_required(VERSION 2.4.6)\<newline>  rosbuild_make_distribution(1.2.3)\<newline>''
     = Inr (Some ''1.2.3'')"
  "get_cmake_version ''rosbuild_make_distribution'' = Inl ValueError"
  "get_cmake_version ''project(x)\<newline>'' = Inr None"
  by (simp_all add: version_defs startswith_def)



section \<open>Expanding names to packages (C8)\<close>

















section \<open>Secondary dependencies (C7)\<close>











lemma known_rc_upd [simp]: "known e (m\<lparr>rosdeps_cache := x\<rparr>) = known e m"
  by (simp add: known_def)

lemma pending_rc_upd [simp]: "pending e (m\<lparr>rosdeps_cache := x\<rparr>) = pending e m"
  by (simp add: pending_def)

lemma manifest_at_rc_upd [simp]:
  "manifest_at e (m\<lparr>rosdeps_cache := x\<rparr>) = manifest_at e m"
  by (rule ext) (simp add: manifest_at_alt split: option.splits sum.splits)










end
